theory Spec2Isabelle
  imports Main
begin

section \<open>JavaScript values\<close>

text \<open>
  The backing array of an \<open>Iter\<close> holds arbitrary JavaScript values, and the class uses
  \<open>undefined\<close> as its "no value" sentinel. The values are modelled by a datatype that
  keeps \<open>undefined\<close> apart from the other values, with the falsy ones among them
  (\<open>null\<close>, \<open>false\<close>, \<open>0\<close>, the empty string): the class tests both
  \<open>x === undefined\<close> and the truthiness of a value. Numbers are the integer-valued
  ones.
\<close>

datatype jsval = JUndefined | JNull | JBool bool | JNum int | JStr string

text \<open>JavaScript's ToBoolean, as used by \<open>!!x\<close> and by \<open>c ? a : b\<close>.\<close>

fun truthy :: "jsval \<Rightarrow> bool" where
  "truthy JUndefined = False"
| "truthy JNull = False"
| "truthy (JBool b) = b"
| "truthy (JNum n) = (n \<noteq> 0)"
| "truthy (JStr s) = (s \<noteq> [])"

text \<open>
  Reading an array at an index: JavaScript yields \<open>undefined\<close> out of range instead of
  raising.
\<close>

definition at_index :: "jsval list \<Rightarrow> nat \<Rightarrow> jsval" where
  "at_index xs i = (if i < length xs then xs ! i else JUndefined)"

section \<open>The iterator object\<close>

text \<open>
  A user callback is a JavaScript function of one argument. It may have side effects
  (the callback of \<open>tap\<close> exists for them), so it is a function on an outside world
  \<open>'w\<close> that it may change. Callbacks are taken to return normally and to leave the
  iterator itself alone.

  The entries of \<open>higher_order\<close> are the functions \<open>_map\<close>, \<open>_filter\<close> and
  \<open>_tap\<close> of the class (\<open>priv_map\<close>, \<open>priv_filter\<close>, \<open>priv_tap\<close> below), called as
  \<open>higher_order[i](callback[i], value)\<close>.

  The index \<open>idx\<close> starts at \<open>0\<close> and is only changed by \<open>this.idx++\<close> in \<open>next\<close>
  and by \<open>this.idx -= 1\<close> in \<open>prev\<close>, the latter under \<open>this.idx > 0\<close>: it is a
  natural number.
\<close>

type_synonym 'w fn = "jsval \<Rightarrow> 'w \<Rightarrow> jsval \<times> 'w"

type_synonym 'w hof = "'w fn \<Rightarrow> jsval \<Rightarrow> 'w \<Rightarrow> jsval \<times> 'w"

record 'w iter =
  idx :: nat
  val :: "jsval list"
  higher_order :: "'w hof list"
  callback :: "'w fn list"

text \<open>
  The only exception the class itself can raise: calling \<open>callback[i]\<close> when the array
  \<open>callback\<close> has no entry \<open>i\<close> (\<open>undefined\<close> is not a function).
\<close>

datatype error = TypeError

text \<open>\<open>constructor(val)\<close>: \<open>this.val = val || []\<close>; \<open>None\<close> is the omitted argument.\<close>

definition constructor_iter :: "jsval list option \<Rightarrow> 'w iter" where
  "constructor_iter v =
     \<lparr>idx = 0, val = (case v of None \<Rightarrow> [] | Some xs \<Rightarrow> xs), higher_order = [], callback = []\<rparr>"

definition reset :: "'w iter \<Rightarrow> 'w iter" where
  "reset it = it\<lparr>idx := 0, higher_order := [], callback := []\<rparr>"

definition has_next :: "'w iter \<Rightarrow> bool" where
  "has_next it = (idx it < length (val it))"

definition has_prev :: "'w iter \<Rightarrow> bool" where
  "has_prev it = (idx it > 0)"

subsection \<open>The three stage functions\<close>

definition priv_map :: "'w hof" where
  "priv_map f v w = f v w"

definition priv_filter :: "'w hof" where
  "priv_filter f v w = (case f v w of (r, w') \<Rightarrow> (if truthy r then v else JUndefined, w'))"

definition priv_tap :: "'w hof" where
  "priv_tap f v w = (case f v w of (r, w') \<Rightarrow> (v, w'))"

subsection \<open>Running the pipeline on one value\<close>

text \<open>
  The inner loop of \<open>next\<close> and \<open>prev\<close>, on the arrays \<open>this.higher_order\<close>
  and \<open>this.callback\<close>:
  \<^verbatim>\<open>for (let i = 0; i < this.higher_order.length && next !== undefined; i++)
    next = this.higher_order[i](this.callback[i], next);\<close>
\<close>

function stages :: "'w hof list \<Rightarrow> 'w fn list \<Rightarrow> nat \<Rightarrow> jsval \<Rightarrow> 'w \<Rightarrow> error + (jsval \<times> 'w)" where
  "stages hs cs i v w =
     (if i < length hs \<and> v \<noteq> JUndefined then
        (if i < length cs then
           (case (hs ! i) (cs ! i) v w of (v', w') \<Rightarrow> stages hs cs (Suc i) v' w')
         else Inl TypeError)
      else Inr (v, w))"
  by pat_completeness auto
termination
  by (relation "measure (\<lambda>(hs, cs, i, v, w). length hs - i)") auto

declare stages.simps [simp del]

subsection \<open>Traversal\<close>

text \<open>
  \<open>next()\<close>: the loop \<open>while (this.has_next() && next === undefined)\<close> reads
  \<open>this.val[this.idx++]\<close> and runs the pipeline on it. The \<open>console.assert\<close> after
  the loop only logs and does not change the result.
\<close>

function next_loop :: "'w iter \<Rightarrow> jsval \<Rightarrow> 'w \<Rightarrow> error + (jsval \<times> 'w iter \<times> 'w)" where
  "next_loop it nxt w =
     (if has_next it \<and> nxt = JUndefined then
        (let raw = at_index (val it) (idx it);
             it' = it\<lparr>idx := idx it + 1\<rparr>
         in case stages (higher_order it') (callback it') 0 raw w of
              Inl e \<Rightarrow> Inl e
            | Inr (v, w') \<Rightarrow> next_loop it' v w')
      else Inr (nxt, it, w))"
  by pat_completeness auto
termination
  by (relation "measure (\<lambda>(it, nxt, w). length (val it) - idx it)")
     (auto simp: has_next_def)

declare next_loop.simps [simp del]

definition next_iter :: "'w iter \<Rightarrow> 'w \<Rightarrow> error + (jsval \<times> 'w iter \<times> 'w)" where
  "next_iter it w = next_loop it JUndefined w"

text \<open>
  \<open>prev()\<close>: the loop \<open>while (this.has_prev() && prev === undefined)\<close> reads
  \<open>this.val[(this.idx -= 1)]\<close>.
\<close>

function prev_loop :: "'w iter \<Rightarrow> jsval \<Rightarrow> 'w \<Rightarrow> error + (jsval \<times> 'w iter \<times> 'w)" where
  "prev_loop it prv w =
     (if has_prev it \<and> prv = JUndefined then
        (let it' = it\<lparr>idx := idx it - 1\<rparr>;
             raw = at_index (val it') (idx it')
         in case stages (higher_order it') (callback it') 0 raw w of
              Inl e \<Rightarrow> Inl e
            | Inr (v, w') \<Rightarrow> prev_loop it' v w')
      else Inr (prv, it, w))"
  by pat_completeness auto
termination
  by (relation "measure (\<lambda>(it, prv, w). idx it)")
     (auto simp: has_prev_def)

declare prev_loop.simps [simp del]

definition prev :: "'w iter \<Rightarrow> 'w \<Rightarrow> error + (jsval \<times> 'w iter \<times> 'w)" where
  "prev it w = prev_loop it JUndefined w"

text \<open>\<open>peek()\<close>: \<open>return this.val[this.idx + 1]\<close>; the object is handed back as it was.\<close>

definition peek :: "'w iter \<Rightarrow> jsval \<times> 'w iter" where
  "peek it = (at_index (val it) (idx it + 1), it)"

subsection \<open>Registering stages\<close>

definition map_iter :: "'w fn \<Rightarrow> 'w iter \<Rightarrow> 'w iter" where
  "map_iter f it =
     it\<lparr>higher_order := higher_order it @ [priv_map], callback := callback it @ [f]\<rparr>"

definition filter_iter :: "'w fn \<Rightarrow> 'w iter \<Rightarrow> 'w iter" where
  "filter_iter f it =
     it\<lparr>higher_order := higher_order it @ [priv_filter], callback := callback it @ [f]\<rparr>"

definition tap :: "'w fn \<Rightarrow> 'w iter \<Rightarrow> 'w iter" where
  "tap f it =
     it\<lparr>higher_order := higher_order it @ [priv_tap], callback := callback it @ [f]\<rparr>"

text \<open>\<open>some(fn)\<close>: pushes \<open>_filter\<close> and \<open>fn\<close>, then \<open>return !!this.next()\<close>.\<close>

definition some :: "'w fn \<Rightarrow> 'w iter \<Rightarrow> 'w \<Rightarrow> error + (bool \<times> 'w iter \<times> 'w)" where
  "some f it w =
     (case next_iter (it\<lparr>higher_order := higher_order it @ [priv_filter],
                         callback := callback it @ [f]\<rparr>) w of
        Inl e \<Rightarrow> Inl e
      | Inr (v, it', w') \<Rightarrow> Inr (truthy v, it', w'))"

text \<open>\<open>find(fn)\<close>: pushes \<open>_filter\<close> and \<open>fn\<close>, then \<open>return this.next()\<close>.\<close>

definition find_iter :: "'w fn \<Rightarrow> 'w iter \<Rightarrow> 'w \<Rightarrow> error + (jsval \<times> 'w iter \<times> 'w)" where
  "find_iter f it w =
     next_iter (it\<lparr>higher_order := higher_order it @ [priv_filter],
                   callback := callback it @ [f]\<rparr>) w"

subsection \<open>One turn of the loop of \<open>next\<close>\<close>

lemma next_loop_stop:
  "\<not> (has_next it \<and> nxt = JUndefined) \<Longrightarrow> next_loop it nxt w = Inr (nxt, it, w)"
  by (subst next_loop.simps) auto

lemma next_loop_step:
  "has_next it \<Longrightarrow>
   next_loop it JUndefined w =
     (case stages (higher_order it) (callback it) 0 (at_index (val it) (idx it)) w of
        Inl e \<Rightarrow> Inl e
      | Inr (v, w') \<Rightarrow> next_loop (it\<lparr>idx := Suc (idx it)\<rparr>) v w')"
  by (subst next_loop.simps) (simp add: Let_def)

text \<open>
  What a returning \<open>next\<close> leaves behind: the array and the pipeline are untouched, the
  index never moves back, it moves forward (and stays within the array) when there was
  an element to read, and the condition of the \<open>console.assert\<close> after the loop holds.
\<close>

lemma next_loop_frame:
  "next_loop it nxt w = Inr (v, it', w') \<Longrightarrow>
     val it' = val it \<and> higher_order it' = higher_order it \<and> callback it' = callback it \<and>
     idx it \<le> idx it' \<and>
     (has_next it \<and> nxt = JUndefined \<longrightarrow> idx it < idx it' \<and> idx it' \<le> length (val it)) \<and>
     (\<not> (has_next it \<and> nxt = JUndefined) \<longrightarrow> it' = it \<and> v = nxt \<and> w' = w) \<and>
     (has_next it' \<longrightarrow> v \<noteq> JUndefined)"
proof (induction it nxt w rule: next_loop.induct)
  case (1 it nxt w)
  show ?case
  proof (cases "has_next it \<and> nxt = JUndefined")
    case False
    with "1.prems" show ?thesis
      by (auto simp: next_loop_stop)
  next
    case True
    let ?it1 = "it\<lparr>idx := idx it + 1\<rparr>"
    from True "1.prems" obtain u w1 where
      st: "stages (higher_order ?it1) (callback ?it1) 0 (at_index (val it) (idx it)) w = Inr (u, w1)"
      and rec: "next_loop ?it1 u w1 = Inr (v, it', w')"
      by (auto simp: next_loop_step split: sum.splits)
    from "1.IH" [OF True refl refl st refl rec]
    show ?thesis using True
      by (auto simp: has_next_def)
  qed
qed

lemma next_iter_advances:
  assumes "has_next it" and "next_iter it w = Inr (v, it', w')"
  shows "length (val it') - idx it' < length (val it) - idx it"
  using next_loop_frame [of it JUndefined w v it' w'] assms
  by (auto simp: next_iter_def has_next_def)

subsection \<open>Collecting\<close>

text \<open>
  \<open>collect()\<close>: \<open>while (this.has_next())\<close> calls \<open>this.next()\<close> and pushes the result
  unless it is \<open>undefined\<close>.
\<close>

function collect_loop ::
  "'w iter \<Rightarrow> jsval list \<Rightarrow> 'w \<Rightarrow> error + (jsval list \<times> 'w iter \<times> 'w)" where
  "collect_loop it collected w =
     (if has_next it then
        (case next_iter it w of
           Inl e \<Rightarrow> Inl e
         | Inr (transformed, it', w') \<Rightarrow>
             collect_loop it'
               (if transformed \<noteq> JUndefined then collected @ [transformed] else collected) w')
      else Inr (collected, it, w))"
  by pat_completeness auto
termination
  by (relation "measure (\<lambda>(it, collected, w). length (val it) - idx it)")
     (auto simp: next_iter_advances)

declare collect_loop.simps [simp del]

definition collect :: "'w iter \<Rightarrow> 'w \<Rightarrow> error + (jsval list \<times> 'w iter \<times> 'w)" where
  "collect it w = collect_loop it [] w"

section \<open>Basic facts about the loops\<close>

lemma stages_undefined: "stages hs cs i JUndefined w = Inr (JUndefined, w)"
  by (subst stages.simps) simp

lemma stages_end: "length hs \<le> i \<Longrightarrow> stages hs cs i v w = Inr (v, w)"
  by (subst stages.simps) simp

lemma stages_step:
  "i < length hs \<Longrightarrow> i < length cs \<Longrightarrow> v \<noteq> JUndefined \<Longrightarrow>
   stages hs cs i v w = (case (hs ! i) (cs ! i) v w of (v', w') \<Rightarrow> stages hs cs (Suc i) v' w')"
  by (subst stages.simps) simp

lemma stages_ok:
  "length hs \<le> length cs \<Longrightarrow> \<exists>v' w'. stages hs cs i v w = Inr (v', w')"
proof (induction hs cs i v w rule: stages.induct)
  case (1 hs cs i v w)
  show ?case
  proof (cases "i < length hs \<and> v \<noteq> JUndefined")
    case False
    then show ?thesis by (subst stages.simps) auto
  next
    case True
    with "1.prems" have ic: "i < length cs" by simp
    obtain v1 w1 where h: "(hs ! i) (cs ! i) v w = (v1, w1)" by (cases "(hs ! i) (cs ! i) v w")
    from "1.IH" [OF True ic h [symmetric] "1.prems"] True ic h
    show ?thesis by (simp add: stages_step)
  qed
qed

lemma next_loop_ok:
  "length (higher_order it) \<le> length (callback it) \<Longrightarrow>
   \<exists>v it' w'. next_loop it nxt w = Inr (v, it', w')"
proof (induction it nxt w rule: next_loop.induct)
  case (1 it nxt w)
  show ?case
  proof (cases "has_next it \<and> nxt = JUndefined")
    case False
    then show ?thesis by (simp add: next_loop_stop)
  next
    case True
    let ?it1 = "it\<lparr>idx := idx it + 1\<rparr>"
    from stages_ok [OF "1.prems"] obtain u w1 where
      st: "stages (higher_order ?it1) (callback ?it1) 0 (at_index (val it) (idx it)) w = Inr (u, w1)"
      by fastforce
    from "1.IH" [OF True refl refl st refl] "1.prems" st True
    show ?thesis by (simp add: next_loop_step)
  qed
qed

lemma prev_loop_stop:
  "\<not> (has_prev it \<and> prv = JUndefined) \<Longrightarrow> prev_loop it prv w = Inr (prv, it, w)"
  by (subst prev_loop.simps) auto

lemma prev_loop_step:
  "has_prev it \<Longrightarrow>
   prev_loop it JUndefined w =
     (case stages (higher_order it) (callback it) 0 (at_index (val it) (idx it - 1)) w of
        Inl e \<Rightarrow> Inl e
      | Inr (v, w') \<Rightarrow> prev_loop (it\<lparr>idx := idx it - 1\<rparr>) v w')"
  by (subst prev_loop.simps) (simp add: Let_def del: One_nat_def)

lemma prev_loop_frame:
  "prev_loop it prv w = Inr (v, it', w') \<Longrightarrow>
     val it' = val it \<and> higher_order it' = higher_order it \<and> callback it' = callback it \<and>
     idx it' \<le> idx it \<and>
     (has_prev it \<and> prv = JUndefined \<longrightarrow> idx it' < idx it) \<and>
     (\<not> (has_prev it \<and> prv = JUndefined) \<longrightarrow> it' = it \<and> v = prv \<and> w' = w) \<and>
     (has_prev it' \<longrightarrow> v \<noteq> JUndefined)"
proof (induction it prv w rule: prev_loop.induct)
  case (1 it prv w)
  show ?case
  proof (cases "has_prev it \<and> prv = JUndefined")
    case False
    with "1.prems" show ?thesis
      by (auto simp: prev_loop_stop)
  next
    case True
    let ?it1 = "it\<lparr>idx := idx it - 1\<rparr>"
    from True "1.prems" obtain u w1 where
      st: "stages (higher_order ?it1) (callback ?it1) 0 (at_index (val ?it1) (idx ?it1)) w = Inr (u, w1)"
      and rec: "prev_loop ?it1 u w1 = Inr (v, it', w')"
      by (auto simp: prev_loop_step split: sum.splits)
    from "1.IH" [OF True refl refl st refl rec]
    show ?thesis using True
      by (auto simp: has_prev_def)
  qed
qed

lemma prev_loop_ok:
  "length (higher_order it) \<le> length (callback it) \<Longrightarrow>
   \<exists>v it' w'. prev_loop it prv w = Inr (v, it', w')"
proof (induction it prv w rule: prev_loop.induct)
  case (1 it prv w)
  show ?case
  proof (cases "has_prev it \<and> prv = JUndefined")
    case False
    then show ?thesis by (simp add: prev_loop_stop)
  next
    case True
    let ?it1 = "it\<lparr>idx := idx it - 1\<rparr>"
    from stages_ok [OF "1.prems"] obtain u w1 where
      st: "stages (higher_order ?it1) (callback ?it1) 0 (at_index (val ?it1) (idx ?it1)) w = Inr (u, w1)"
      by fastforce
    from "1.IH" [OF True refl refl st refl] "1.prems" st True
    show ?thesis by (simp add: prev_loop_step)
  qed
qed

lemma collect_loop_stop: "\<not> has_next it \<Longrightarrow> collect_loop it acc w = Inr (acc, it, w)"
  by (subst collect_loop.simps) simp

lemma collect_loop_step:
  assumes "has_next it"
  shows "collect_loop it acc w =
     (case stages (higher_order it) (callback it) 0 (at_index (val it) (idx it)) w of
        Inl e \<Rightarrow> Inl e
      | Inr (v, w1) \<Rightarrow>
          collect_loop (it\<lparr>idx := Suc (idx it)\<rparr>)
            (if v \<noteq> JUndefined then acc @ [v] else acc) w1)"
proof (cases "stages (higher_order it) (callback it) 0 (at_index (val it) (idx it)) w")
  case (Inl e)
  with assms show ?thesis
    by (subst collect_loop.simps) (simp add: next_iter_def next_loop_step)
next
  case (Inr p)
  obtain v w1 where p: "p = (v, w1)" by (cases p)
  let ?it1 = "it\<lparr>idx := Suc (idx it)\<rparr>"
  have nx: "next_iter it w = next_loop ?it1 v w1"
    using assms Inr p by (simp add: next_iter_def next_loop_step)
  show ?thesis
  proof (cases "has_next ?it1 \<and> v = JUndefined")
    case False
    then have "next_iter it w = Inr (v, ?it1, w1)"
      using nx by (simp add: next_loop_stop)
    with assms Inr p show ?thesis
      by (subst collect_loop.simps) simp
  next
    case True
    then have "next_iter it w = next_iter ?it1 w1"
      using nx by (simp add: next_iter_def)
    moreover have "collect_loop ?it1 acc w1 =
      (case next_iter ?it1 w1 of Inl e \<Rightarrow> Inl e
       | Inr (t, it', w') \<Rightarrow> collect_loop it' (if t \<noteq> JUndefined then acc @ [t] else acc) w')"
      using True by (subst collect_loop.simps) simp
    ultimately show ?thesis
      using assms Inr p True by (subst collect_loop.simps) simp
  qed
qed

section \<open>Evaluating the class on concrete arrays\<close>

text \<open>
  The defining equations of the loops are kept out of the simplifier; on a concrete
  iterator they are unfolded together with the definitions of the methods.
\<close>

lemmas iter_eval =
  next_loop.simps stages.simps prev_loop.simps collect_loop.simps
  next_iter_def prev_def collect_def some_def find_iter_def
  filter_iter_def map_iter_def tap_def reset_def constructor_iter_def
  has_next_def has_prev_def at_index_def priv_filter_def priv_map_def priv_tap_def Let_def

section \<open>\<open>peek\<close>\<close>

text \<open>
  Claim C7. For every state of the iterator, \<open>peek()\<close> returns the raw element at index
  \<open>idx + 1\<close>, one position ahead of the one \<open>next()\<close> would read (\<open>undefined\<close> when
  that index is outside the array); the iterator is left exactly as it was, and the result
  does not depend on the pipeline: whatever the arrays \<open>higher_order\<close> and
  \<open>callback\<close> hold, the value is the same.
\<close>

theorem peek_raw_ahead:
  "peek it = (if idx it + 1 < length (val it) then val it ! (idx it + 1) else JUndefined, it)
   \<and> fst (peek (it\<lparr>higher_order := hs, callback := cs\<rparr>)) = fst (peek it)"
  by (simp add: peek_def at_index_def)

section \<open>\<open>some\<close> and falsy values\<close>

text \<open>
  Claim C2. \<open>some(fn)\<close> should return true exactly when its call of \<open>next()\<close>
  produced a value. The method returns \<open>!!this.next()\<close>, the truthiness of the value,
  so a produced value that is falsy gives false. On the array \<open>[0]\<close> with the predicate
  \<open>v => v === 0\<close>, the same registration followed by \<open>next()\<close> (that is,
  \<open>find\<close>) produces the value \<open>0\<close>, and \<open>some\<close> returns false.
\<close>

theorem some_false_on_falsy_value:
  "find_iter (\<lambda>v w. (JBool (v = JNum 0), w)) (constructor_iter (Some [JNum 0])) () =
     Inr (JNum 0, \<lparr>idx = 1, val = [JNum 0], higher_order = [priv_filter],
                   callback = [\<lambda>v w. (JBool (v = JNum 0), w)]\<rparr>, ())
   \<and> some (\<lambda>v w. (JBool (v = JNum 0), w)) (constructor_iter (Some [JNum 0])) () =
     Inr (False, \<lparr>idx = 1, val = [JNum 0], higher_order = [priv_filter],
                   callback = [\<lambda>v w. (JBool (v = JNum 0), w)]\<rparr>, ())"
  by (simp add: iter_eval)

section \<open>The two pipeline arrays stay paired\<close>

text \<open>
  The pipeline as a list of pairs (stage function, user function), run in order and cut
  short at the first \<open>undefined\<close>: what the index loop of \<open>stages\<close> is compared with.
\<close>

fun run_pairs :: "('w hof \<times> 'w fn) list \<Rightarrow> jsval \<Rightarrow> 'w \<Rightarrow> jsval \<times> 'w" where
  "run_pairs [] v w = (v, w)"
| "run_pairs ((h, f) # ps) v w =
     (if v = JUndefined then (v, w) else (case h f v w of (v', w') \<Rightarrow> run_pairs ps v' w'))"

text \<open>
  The states of an iterator that the methods of the class can produce, starting from the
  constructor. A method that returns a result also returns the object it leaves behind.
\<close>

inductive reachable :: "'w iter \<Rightarrow> bool" where
  r_constructor: "reachable (constructor_iter xs)"
| r_reset: "reachable it \<Longrightarrow> reachable (reset it)"
| r_map: "reachable it \<Longrightarrow> reachable (map_iter f it)"
| r_filter: "reachable it \<Longrightarrow> reachable (filter_iter f it)"
| r_tap: "reachable it \<Longrightarrow> reachable (tap f it)"
| r_some: "reachable it \<Longrightarrow> some f it w = Inr (b, it', w') \<Longrightarrow> reachable it'"
| r_find: "reachable it \<Longrightarrow> find_iter f it w = Inr (v, it', w') \<Longrightarrow> reachable it'"
| r_next: "reachable it \<Longrightarrow> next_iter it w = Inr (v, it', w') \<Longrightarrow> reachable it'"
| r_prev: "reachable it \<Longrightarrow> prev it w = Inr (v, it', w') \<Longrightarrow> reachable it'"
| r_collect: "reachable it \<Longrightarrow> collect it w = Inr (vs, it', w') \<Longrightarrow> reachable it'"

lemma run_pairs_undefined: "run_pairs ps JUndefined w = (JUndefined, w)"
  by (cases ps) auto

lemma stages_run_pairs:
  "length hs = length cs \<Longrightarrow> stages hs cs i v w = Inr (run_pairs (drop i (zip hs cs)) v w)"
proof (induction hs cs i v w rule: stages.induct)
  case (1 hs cs i v w)
  show ?case
  proof (cases "i < length hs")
    case False
    then show ?thesis by (simp add: stages_end)
  next
    case True
    note i = this
    show ?thesis
    proof (cases "v = JUndefined")
      case True
      then show ?thesis by (simp add: stages_undefined run_pairs_undefined)
    next
      case False
      from i "1.prems" have ic: "i < length cs" by simp
      obtain v1 w1 where h: "(hs ! i) (cs ! i) v w = (v1, w1)" by (cases "(hs ! i) (cs ! i) v w")
      from i ic have d: "drop i (zip hs cs) = (hs ! i, cs ! i) # drop (Suc i) (zip hs cs)"
        by (simp add: Cons_nth_drop_Suc [symmetric])
      from "1.IH" [OF _ ic h [symmetric] "1.prems"] i False
      have "stages hs cs (Suc i) v1 w1 = Inr (run_pairs (drop (Suc i) (zip hs cs)) v1 w1)"
        by simp
      with i ic False h d show ?thesis
        by (simp add: stages_step)
    qed
  qed
qed

lemma collect_loop_frame:
  "collect_loop it acc w = Inr (vs, it', w') \<Longrightarrow>
     val it' = val it \<and> higher_order it' = higher_order it \<and> callback it' = callback it \<and>
     idx it \<le> idx it' \<and> \<not> has_next it' \<and>
     (idx it \<le> length (val it) \<longrightarrow> idx it' = length (val it))"
proof (induction it acc w rule: collect_loop.induct)
  case (1 it acc w)
  show ?case
  proof (cases "has_next it")
    case False
    with "1.prems" show ?thesis by (auto simp: collect_loop_stop has_next_def)
  next
    case True
    from True "1.prems" obtain t it1 w1 where
      nx: "next_iter it w = Inr (t, it1, w1)"
      and rec: "collect_loop it1 (if t \<noteq> JUndefined then acc @ [t] else acc) w1 = Inr (vs, it', w')"
      by (subst (asm) collect_loop.simps) (auto split: sum.splits)
    from "1.IH" [OF True nx refl refl rec] next_loop_frame [OF nx [unfolded next_iter_def]]
    show ?thesis using True by (auto simp: has_next_def)
  qed
qed

definition paired :: "'w iter \<Rightarrow> bool" where
  "paired it = (length (higher_order it) = length (callback it) \<and> idx it \<le> length (val it))"

lemma reachable_paired: "reachable it \<Longrightarrow> paired it"
proof (induction rule: reachable.induct)
  case (r_some it f w b it' w')
  then obtain v where "next_iter (filter_iter f it) w = Inr (v, it', w')"
    by (auto simp: some_def filter_iter_def split: sum.splits)
  from next_loop_frame [OF this [unfolded next_iter_def]] r_some.IH
  show ?case by (auto simp: paired_def filter_iter_def has_next_def)
next
  case (r_find it f w v it' w')
  then have "next_iter (filter_iter f it) w = Inr (v, it', w')"
    by (simp add: find_iter_def filter_iter_def)
  from next_loop_frame [OF this [unfolded next_iter_def]] r_find.IH
  show ?case by (auto simp: paired_def filter_iter_def has_next_def)
next
  case (r_next it w v it' w')
  from next_loop_frame [OF r_next.hyps(2) [unfolded next_iter_def]] r_next.IH
  show ?case by (auto simp: paired_def has_next_def)
next
  case (r_prev it w v it' w')
  from prev_loop_frame [OF r_prev.hyps(2) [unfolded prev_def]] r_prev.IH
  show ?case by (auto simp: paired_def)
next
  case (r_collect it w vs it' w')
  from collect_loop_frame [OF r_collect.hyps(2) [unfolded collect_def]] r_collect.IH
  show ?case by (auto simp: paired_def has_next_def)
qed (auto simp: paired_def constructor_iter_def reset_def map_iter_def filter_iter_def tap_def)

lemma find_iter_frame:
  assumes "find_iter f it w = Inr (v, it', w')"
  shows "higher_order it' = higher_order it @ [priv_filter] \<and> callback it' = callback it @ [f] \<and>
         val it' = val it \<and> idx it \<le> idx it' \<and>
         (has_next it \<longrightarrow> idx it < idx it' \<and> idx it' \<le> length (val it)) \<and>
         (\<not> has_next it \<longrightarrow> idx it' = idx it \<and> v = JUndefined \<and> w' = w) \<and>
         (has_next it' \<longrightarrow> v \<noteq> JUndefined)"
  using next_loop_frame [OF assms [unfolded find_iter_def next_iter_def]]
  by (auto simp: has_next_def)

lemma some_find:
  "some f it w = (case find_iter f it w of Inl e \<Rightarrow> Inl e | Inr (v, it', w') \<Rightarrow> Inr (truthy v, it', w'))"
  by (simp add: some_def find_iter_def)

lemma some_frame:
  assumes "some f it w = Inr (b, it', w')"
  shows "higher_order it' = higher_order it @ [priv_filter] \<and> callback it' = callback it @ [f] \<and>
         val it' = val it \<and> idx it \<le> idx it' \<and>
         (has_next it \<longrightarrow> idx it < idx it' \<and> idx it' \<le> length (val it)) \<and>
         (\<not> has_next it \<longrightarrow> idx it' = idx it \<and> \<not> b \<and> w' = w)"
proof -
  from assms obtain v where "find_iter f it w = Inr (v, it', w')" and "b = truthy v"
    by (auto simp: some_find split: sum.splits)
  with find_iter_frame [of f it w v it' w'] show ?thesis by auto
qed

subsection \<open>Callbacks of the test suite\<close>

text \<open>
  The callbacks of the repository's tests are functions on numbers without side effects
  (\<open>value => value * 2\<close>, \<open>value => value > 4\<close>). They serve as concrete inputs.
\<close>

definition num_fn :: "(int \<Rightarrow> int) \<Rightarrow> 'w fn" where
  "num_fn g v w = ((case v of JNum n \<Rightarrow> JNum (g n) | _ \<Rightarrow> v), w)"

definition pred_fn :: "(int \<Rightarrow> bool) \<Rightarrow> 'w fn" where
  "pred_fn p v w = (JBool (case v of JNum n \<Rightarrow> p n | _ \<Rightarrow> False), w)"

text \<open>
  Claim C10. In every state that the constructor and the methods of the class can
  produce (\<open>reset\<close>, \<open>map\<close>, \<open>filter\<close>, \<open>tap\<close>, \<open>some\<close>, \<open>find\<close>, and the
  traversals), the arrays \<open>higher_order\<close> and \<open>callback\<close> have the same length, and
  running the pipeline is running the list of pairs \<open>(higher_order[i], callback[i])\<close> in
  order (so no \<open>TypeError\<close> arises from a missing callback). Each registering method
  appends exactly the pair of its own stage function and the user's function, so a user
  function is only ever called by the stage function it was registered with; \<open>reset\<close>
  empties both arrays.
\<close>

theorem pipeline_arrays_paired:
  "reachable it \<Longrightarrow>
     length (higher_order it) = length (callback it) \<and>
     (\<forall>v w. stages (higher_order it) (callback it) 0 v w =
        Inr (run_pairs (zip (higher_order it) (callback it)) v w)) \<and>
     zip (higher_order (map_iter f it)) (callback (map_iter f it)) =
        zip (higher_order it) (callback it) @ [(priv_map, f)] \<and>
     zip (higher_order (filter_iter f it)) (callback (filter_iter f it)) =
        zip (higher_order it) (callback it) @ [(priv_filter, f)] \<and>
     zip (higher_order (tap f it)) (callback (tap f it)) =
        zip (higher_order it) (callback it) @ [(priv_tap, f)] \<and>
     (\<forall>w b it' w'. some f it w = Inr (b, it', w') \<longrightarrow>
        zip (higher_order it') (callback it') =
          zip (higher_order it) (callback it) @ [(priv_filter, f)]) \<and>
     (\<forall>w v it' w'. find_iter f it w = Inr (v, it', w') \<longrightarrow>
        zip (higher_order it') (callback it') =
          zip (higher_order it) (callback it) @ [(priv_filter, f)]) \<and>
     higher_order (reset it) = [] \<and> callback (reset it) = []"
proof -
  assume r: "reachable it"
  then have len: "length (higher_order it) = length (callback it)"
    using reachable_paired [of it] by (simp add: paired_def)
  have st: "\<forall>v w. stages (higher_order it) (callback it) 0 v w =
        Inr (run_pairs (zip (higher_order it) (callback it)) v w)"
    using stages_run_pairs [OF len, of 0] by simp
  have so: "\<forall>w b it' w'. some f it w = Inr (b, it', w') \<longrightarrow>
        zip (higher_order it') (callback it') =
          zip (higher_order it) (callback it) @ [(priv_filter, f)]"
    using len by (auto dest!: some_frame)
  have fi: "\<forall>w v it' w'. find_iter f it w = Inr (v, it', w') \<longrightarrow>
        zip (higher_order it') (callback it') =
          zip (higher_order it) (callback it) @ [(priv_filter, f)]"
    using len by (auto dest!: find_iter_frame)
  from len st so fi show ?thesis
    by (simp add: map_iter_def filter_iter_def tap_def reset_def)
qed

theorem pipeline_arrays_paired_witness:
  "reachable (filter_iter (pred_fn (\<lambda>n. 6 < n))
      (map_iter (num_fn (\<lambda>n. n * 2)) (constructor_iter (Some [JNum 1, JNum 5]) :: unit iter))) \<and>
   length (higher_order (filter_iter (pred_fn (\<lambda>n. 6 < n))
      (map_iter (num_fn (\<lambda>n. n * 2)) (constructor_iter (Some [JNum 1, JNum 5]) :: unit iter)))) = 2 \<and>
   length (callback (filter_iter (pred_fn (\<lambda>n. 6 < n))
      (map_iter (num_fn (\<lambda>n. n * 2)) (constructor_iter (Some [JNum 1, JNum 5]) :: unit iter)))) = 2 \<and>
   stages [priv_map, priv_filter] [num_fn (\<lambda>n. n * 2), pred_fn (\<lambda>n. 6 < n)] 0 (JNum 5) () =
     Inr (JNum 10, ()) \<and>
   stages [priv_map, priv_filter] [num_fn (\<lambda>n. n * 2), pred_fn (\<lambda>n. 6 < n)] 0 (JNum 1) () =
     Inr (JUndefined, ())"
proof -
  let ?it = "filter_iter (pred_fn (\<lambda>n. 6 < n))
      (map_iter (num_fn (\<lambda>n. n * 2)) (constructor_iter (Some [JNum 1, JNum 5]) :: unit iter))"
  have r: "reachable ?it"
    by (intro r_filter r_map r_constructor)
  from pipeline_arrays_paired [OF r] r show ?thesis
    by (simp add: map_iter_def filter_iter_def constructor_iter_def priv_map_def
        priv_filter_def num_fn_def pred_fn_def)
qed

section \<open>Exhaustion\<close>

text \<open>\<open>n\<close> calls of \<open>next()\<close> in a row, their results dropped.\<close>

fun next_times :: "nat \<Rightarrow> 'w iter \<Rightarrow> 'w \<Rightarrow> error + ('w iter \<times> 'w)" where
  "next_times 0 it w = Inr (it, w)"
| "next_times (Suc n) it w =
     (case next_iter it w of Inl e \<Rightarrow> Inl e | Inr (v, it', w') \<Rightarrow> next_times n it' w')"

lemma next_iter_exhausted: "\<not> has_next it \<Longrightarrow> next_iter it w = Inr (JUndefined, it, w)"
  by (simp add: next_iter_def next_loop_stop)

lemma next_times_exhausted: "\<not> has_next it \<Longrightarrow> next_times k it w = Inr (it, w)"
  by (induction k) (simp_all add: next_iter_exhausted)

lemma next_times_progress:
  "length (higher_order it) \<le> length (callback it) \<Longrightarrow>
   \<exists>it' w'. next_times n it w = Inr (it', w') \<and> val it' = val it \<and>
     length (val it) - idx it' \<le> length (val it) - idx it - n"
proof (induction n arbitrary: it w)
  case 0
  then show ?case by simp
next
  case (Suc n)
  from next_loop_ok [OF Suc.prems, of JUndefined w] obtain v it1 w1 where
    nx: "next_iter it w = Inr (v, it1, w1)" by (auto simp: next_iter_def)
  note fr = next_loop_frame [OF nx [unfolded next_iter_def]]
  from fr Suc.prems have "length (higher_order it1) \<le> length (callback it1)" by simp
  from Suc.IH [OF this, of w1] obtain it' w' where
    r: "next_times n it1 w1 = Inr (it', w')" "val it' = val it1"
       "length (val it1) - idx it' \<le> length (val it1) - idx it1 - n"
    by blast
  have "length (val it) - idx it1 \<le> length (val it) - idx it - 1"
    using fr by (cases "has_next it") (auto simp: has_next_def)
  with r fr nx show ?case by auto
qed

text \<open>
  Claim C5. For every backing array and every pipeline registered through the methods
  (the arrays \<open>higher_order\<close> and \<open>callback\<close> of equal length), as many calls of
  \<open>next()\<close> as the array has elements all return without an exception, and afterwards
  \<open>has_next()\<close> is false, \<open>next()\<close> returns \<open>undefined\<close> and leaves the iterator as it
  is, so any number of further calls return \<open>undefined\<close> as well.
\<close>

theorem next_exhausts_after_length_calls:
  assumes "length (higher_order it) = length (callback it)"
  shows "\<exists>it' w'. next_times (length (val it)) it w = Inr (it', w') \<and> \<not> has_next it' \<and>
           next_iter it' w' = Inr (JUndefined, it', w') \<and>
           (\<forall>k. next_times k it' w' = Inr (it', w'))"
proof -
  from assms have "length (higher_order it) \<le> length (callback it)" by simp
  from next_times_progress [OF this, of "length (val it)" w] obtain it' w' where
    r: "next_times (length (val it)) it w = Inr (it', w')" "val it' = val it"
       "length (val it) - idx it' \<le> length (val it) - idx it - length (val it)"
    by blast
  then have "\<not> has_next it'" by (simp add: has_next_def)
  with r show ?thesis
    by (auto simp: next_iter_exhausted next_times_exhausted)
qed

theorem next_exhausts_after_length_calls_witness:
  "length (higher_order (filter_iter (pred_fn (\<lambda>n. 4 < n))
       (constructor_iter (Some [JNum 1, JNum 5, JNum 3]) :: unit iter))) =
   length (callback (filter_iter (pred_fn (\<lambda>n. 4 < n))
       (constructor_iter (Some [JNum 1, JNum 5, JNum 3]) :: unit iter))) \<and>
   (\<exists>it' w'. next_times 3 (filter_iter (pred_fn (\<lambda>n. 4 < n))
       (constructor_iter (Some [JNum 1, JNum 5, JNum 3]) :: unit iter)) () = Inr (it', w') \<and>
      \<not> has_next it' \<and> next_iter it' w' = Inr (JUndefined, it', w'))"
proof -
  let ?it = "filter_iter (pred_fn (\<lambda>n. 4 < n))
       (constructor_iter (Some [JNum 1, JNum 5, JNum 3]) :: unit iter)"
  have l: "length (higher_order ?it) = length (callback ?it)"
    by (simp add: filter_iter_def constructor_iter_def)
  have v: "length (val ?it) = 3"
    by (simp add: filter_iter_def constructor_iter_def)
  from next_exhausts_after_length_calls [OF l, of "()"] l show ?thesis
    unfolding v by blast
qed

section \<open>\<open>next\<close> followed by \<open>prev\<close>\<close>

lemma next_loop_raw:
  "higher_order it = [] \<Longrightarrow> next_loop it nxt w = Inr (v, it', w') \<Longrightarrow>
   nxt = JUndefined \<Longrightarrow> v \<noteq> JUndefined \<Longrightarrow>
     0 < idx it' \<and> idx it' \<le> length (val it) \<and> at_index (val it) (idx it' - 1) = v \<and> w' = w"
proof (induction it nxt w rule: next_loop.induct)
  case (1 it nxt w)
  have hn: "has_next it"
    using "1.prems" by (cases "has_next it") (auto simp: next_loop_stop)
  let ?it1 = "it\<lparr>idx := idx it + 1\<rparr>"
  let ?raw = "at_index (val it) (idx it)"
  have st: "stages (higher_order ?it1) (callback ?it1) 0 ?raw w = Inr (?raw, w)"
    using "1.prems"(1) by (simp add: stages_end)
  with hn "1.prems" have rec: "next_loop ?it1 ?raw w = Inr (v, it', w')"
    by (simp add: next_loop_step)
  show ?case
  proof (cases "has_next ?it1 \<and> ?raw = JUndefined")
    case True
    from "1.IH" [OF _ refl refl st refl _ rec] hn "1.prems" True
    show ?thesis by simp
  next
    case False
    with rec have "v = ?raw" "it' = ?it1" "w' = w"
      by (simp_all add: next_loop_stop)
    with hn show ?thesis by (simp add: has_next_def)
  qed
qed

text \<open>
  Claim C6. For an iterator with no pipeline stage registered: whenever \<open>next()\<close>
  returns an element (a value other than \<open>undefined\<close>), a call of \<open>prev()\<close> right
  after it returns that same element, and steps the index back by one.
\<close>

theorem next_then_prev_same_element:
  assumes "higher_order it = []"
    and "next_iter it w = Inr (v, it', w')"
    and "v \<noteq> JUndefined"
  shows "prev it' w' = Inr (v, it'\<lparr>idx := idx it' - 1\<rparr>, w')"
proof -
  note fr = next_loop_frame [OF assms(2) [unfolded next_iter_def]]
  from next_loop_raw [OF assms(1) assms(2) [unfolded next_iter_def] refl assms(3)] fr
  have p: "has_prev it'" and r: "at_index (val it') (idx it' - 1) = v"
    by (simp_all add: has_prev_def)
  from fr assms(1) have "higher_order it' = []" by simp
  then have "stages (higher_order it') (callback it') 0 v w' = Inr (v, w')"
    by (simp add: stages_end)
  with p r assms(3) show ?thesis
    by (simp add: prev_def prev_loop_step prev_loop_stop)
qed

theorem next_then_prev_same_element_witness:
  "higher_order (constructor_iter (Some [JNum 1, JNum 5]) :: unit iter) = [] \<and>
   next_iter (constructor_iter (Some [JNum 1, JNum 5])) () =
     Inr (JNum 1, \<lparr>idx = 1, val = [JNum 1, JNum 5], higher_order = [], callback = []\<rparr>, ()) \<and>
   JNum 1 \<noteq> JUndefined \<and>
   prev \<lparr>idx = 1, val = [JNum 1, JNum 5], higher_order = [], callback = []\<rparr> () =
     Inr (JNum 1, \<lparr>idx = 0, val = [JNum 1, JNum 5], higher_order = [], callback = []\<rparr>, ())"
proof -
  let ?it = "constructor_iter (Some [JNum 1, JNum 5]) :: unit iter"
  have h: "higher_order ?it = []" by (simp add: constructor_iter_def)
  have n: "next_iter ?it () =
     Inr (JNum 1, \<lparr>idx = 1, val = [JNum 1, JNum 5], higher_order = [], callback = []\<rparr>, ())"
    by (simp add: iter_eval)
  have d: "JNum 1 \<noteq> JUndefined" by simp
  from next_then_prev_same_element [OF h n d] h n show ?thesis by simp
qed

section \<open>\<open>undefined\<close> elements of the backing array\<close>

lemma stages_empty: "stages [] cs i v w = Inr (v, w)"
  by (simp add: stages_end)

lemma next_loop_skips_undefined:
  "higher_order it = [] \<Longrightarrow>
   next_loop it JUndefined w =
     Inr (case dropWhile (\<lambda>v. v = JUndefined) (drop (idx it) (val it)) of
            [] \<Rightarrow> JUndefined | x # rest \<Rightarrow> x,
          it\<lparr>idx := idx it
                 + length (takeWhile (\<lambda>v. v = JUndefined) (drop (idx it) (val it)))
                 + (if dropWhile (\<lambda>v. v = JUndefined) (drop (idx it) (val it)) = [] then 0 else 1)\<rparr>,
          w)"
proof (induction "length (val it) - idx it" arbitrary: it)
  case 0
  then have "\<not> has_next it" by (simp add: has_next_def)
  with 0 show ?case by (simp add: next_loop_stop has_next_def)
next
  case (Suc n)
  then have hn: "has_next it" by (simp add: has_next_def)
  let ?it1 = "it\<lparr>idx := Suc (idx it)\<rparr>"
  let ?raw = "val it ! idx it"
  from hn have d: "drop (idx it) (val it) = ?raw # drop (Suc (idx it)) (val it)"
    by (simp add: has_next_def Cons_nth_drop_Suc)
  from hn Suc.prems have step: "next_loop it JUndefined w = next_loop ?it1 ?raw w"
    by (simp add: next_loop_step stages_empty at_index_def has_next_def)
  show ?case
  proof (cases "?raw = JUndefined")
    case False
    then show ?thesis using step d by (simp add: next_loop_stop)
  next
    case True
    have "n = length (val ?it1) - idx ?it1" using Suc.hyps(2) by simp
    from Suc.hyps(1) [OF this] Suc.prems True step d
    show ?thesis by simp
  qed
qed

lemma prev_loop_skips_undefined:
  "higher_order it = [] \<Longrightarrow>
   prev_loop it JUndefined w =
     Inr (case dropWhile (\<lambda>v. v = JUndefined) (rev (take (idx it) (val it))) of
            [] \<Rightarrow> JUndefined | x # rest \<Rightarrow> x,
          it\<lparr>idx := length (take (idx it) (val it))
                 - length (takeWhile (\<lambda>v. v = JUndefined) (rev (take (idx it) (val it))))
                 - (if dropWhile (\<lambda>v. v = JUndefined) (rev (take (idx it) (val it))) = [] then 0 else 1)\<rparr>,
          w)"
proof (induction "idx it" arbitrary: it)
  case 0
  then have "\<not> has_prev it" by (simp add: has_prev_def)
  with 0 show ?case by (simp add: prev_loop_stop)
next
  case (Suc n)
  then have hp: "has_prev it" by (simp add: has_prev_def)
  let ?it1 = "it\<lparr>idx := idx it - 1\<rparr>"
  let ?raw = "at_index (val it) (idx it - 1)"
  from hp Suc.prems have step: "prev_loop it JUndefined w = prev_loop ?it1 ?raw w"
    by (simp add: prev_loop_step stages_empty)
  have n: "n = idx ?it1" using Suc.hyps(2) by simp
  have i: "idx it = Suc n" using Suc.hyps(2) by simp
  show ?case
  proof (cases "n < length (val it)")
    case inside: True
    then have t: "take (idx it) (val it) = take n (val it) @ [val it ! n]"
      by (simp add: i take_Suc_conv_app_nth)
    have raw: "?raw = val it ! n" using inside by (simp add: i at_index_def)
    show ?thesis
    proof (cases "val it ! n = JUndefined")
      case False
      with step raw t inside show ?thesis
        by (simp add: prev_loop_stop i min_def)
    next
      case True
      from Suc.hyps(1) [OF n] Suc.prems True step raw t inside
      show ?thesis by (simp add: i min_def)
    qed
  next
    case False
    then have raw: "?raw = JUndefined" by (simp add: i at_index_def)
    from False have t: "take (idx it) (val it) = take n (val it)" by (simp add: i)
    from Suc.hyps(1) [OF n] Suc.prems step raw t
    show ?thesis by (simp add: i)
  qed
qed

lemma collect_loop_skips_undefined:
  "higher_order it = [] \<Longrightarrow>
   \<exists>it'. collect_loop it acc w =
     Inr (acc @ filter (\<lambda>v. v \<noteq> JUndefined) (drop (idx it) (val it)), it', w) \<and> \<not> has_next it'"
proof (induction "length (val it) - idx it" arbitrary: it acc)
  case 0
  then have "\<not> has_next it" by (simp add: has_next_def)
  with 0 show ?case by (simp add: collect_loop_stop has_next_def)
next
  case (Suc n)
  then have hn: "has_next it" by (simp add: has_next_def)
  let ?it1 = "it\<lparr>idx := Suc (idx it)\<rparr>"
  let ?raw = "val it ! idx it"
  from hn have d: "drop (idx it) (val it) = ?raw # drop (Suc (idx it)) (val it)"
    by (simp add: has_next_def Cons_nth_drop_Suc)
  from hn Suc.prems have step: "collect_loop it acc w =
      collect_loop ?it1 (if ?raw \<noteq> JUndefined then acc @ [?raw] else acc) w"
    by (simp add: collect_loop_step stages_empty at_index_def has_next_def)
  have "n = length (val ?it1) - idx ?it1" using Suc.hyps(2) by simp
  from Suc.hyps(1) [OF this, of "if ?raw \<noteq> JUndefined then acc @ [?raw] else acc"] Suc.prems
  show ?case unfolding step d by auto
qed

text \<open>
  Under any pipeline: the turn of the loop that reads an \<open>undefined\<close> element calls no
  stage and goes on to the next turn, so the call is the same call made one position
  further on.
\<close>

lemma next_iter_over_undefined:
  "has_next it \<Longrightarrow> at_index (val it) (idx it) = JUndefined \<Longrightarrow>
   next_iter it w = next_iter (it\<lparr>idx := Suc (idx it)\<rparr>) w"
  by (simp add: next_iter_def next_loop_step stages_undefined)

lemma prev_over_undefined:
  "has_prev it \<Longrightarrow> at_index (val it) (idx it - 1) = JUndefined \<Longrightarrow>
   prev it w = prev (it\<lparr>idx := idx it - 1\<rparr>) w"
  by (simp add: prev_def prev_loop_step stages_undefined)

lemma collect_loop_over_undefined:
  "has_next it \<Longrightarrow> at_index (val it) (idx it) = JUndefined \<Longrightarrow>
   collect_loop it acc w = collect_loop (it\<lparr>idx := Suc (idx it)\<rparr>) acc w"
  by (simp add: collect_loop_step stages_undefined)

lemma collect_loop_no_undefined:
  "collect_loop it acc w = Inr (vs, it', w') \<Longrightarrow> JUndefined \<notin> set acc \<Longrightarrow>
   JUndefined \<notin> set vs"
proof (induction it acc w rule: collect_loop.induct)
  case (1 it acc w)
  show ?case
  proof (cases "has_next it")
    case False
    with "1.prems" show ?thesis by (simp add: collect_loop_stop)
  next
    case True
    from True "1.prems"(1) obtain t it1 w1 where
      nx: "next_iter it w = Inr (t, it1, w1)"
      and rec: "collect_loop it1 (if t \<noteq> JUndefined then acc @ [t] else acc) w1 = Inr (vs, it', w')"
      by (subst (asm) collect_loop.simps) (auto split: sum.splits)
    have "JUndefined \<notin> set (if t \<noteq> JUndefined then acc @ [t] else acc)"
      using "1.prems"(2) by simp
    from "1.IH" [OF True nx refl refl rec this] show ?thesis .
  qed
qed

text \<open>
  What a caller of \<open>collect()\<close> gets apart from the iterator itself: the exception, or
  the collected list and the world the callbacks left.
\<close>

definition observed :: "error + (jsval list \<times> 'w iter \<times> 'w) \<Rightarrow> error + (jsval list \<times> 'w)" where
  "observed r = (case r of Inl e \<Rightarrow> Inl e | Inr (vs, it, w) \<Rightarrow> Inr (vs, w))"

lemma collect_loop_same_elements:
  "higher_order a = higher_order b \<Longrightarrow> callback a = callback b \<Longrightarrow>
   filter (\<lambda>v. v \<noteq> JUndefined) (drop (idx a) (val a)) =
     filter (\<lambda>v. v \<noteq> JUndefined) (drop (idx b) (val b)) \<Longrightarrow>
   observed (collect_loop a acc w) = observed (collect_loop b acc w)"
proof (induction "(length (val a) - idx a) + (length (val b) - idx b)"
    arbitrary: a b acc w rule: less_induct)
  case less
  let ?a1 = "a\<lparr>idx := Suc (idx a)\<rparr>" and ?b1 = "b\<lparr>idx := Suc (idx b)\<rparr>"
  let ?ra = "val a ! idx a" and ?rb = "val b ! idx b"
  have da: "drop (idx a) (val a) = ?ra # drop (Suc (idx a)) (val a)" if "has_next a"
    using that by (simp add: has_next_def Cons_nth_drop_Suc)
  have db: "drop (idx b) (val b) = ?rb # drop (Suc (idx b)) (val b)" if "has_next b"
    using that by (simp add: has_next_def Cons_nth_drop_Suc)
  consider (ua) "has_next a" "?ra = JUndefined"
    | (ub) "has_next b" "?rb = JUndefined"
    | (both) "has_next a" "?ra \<noteq> JUndefined" "has_next b" "?rb \<noteq> JUndefined"
    | (na) "\<not> has_next a" "has_next b \<longrightarrow> ?rb \<noteq> JUndefined"
    | (nb) "\<not> has_next b" "has_next a" "?ra \<noteq> JUndefined"
    by blast
  then show ?case
  proof cases
    case ua
    have "observed (collect_loop ?a1 acc w) = observed (collect_loop b acc w)"
      using less.prems ua da by (intro less.hyps) (auto simp: has_next_def)
    with ua show ?thesis
      by (simp add: collect_loop_over_undefined at_index_def has_next_def)
  next
    case ub
    have "observed (collect_loop a acc w) = observed (collect_loop ?b1 acc w)"
      using less.prems ub db by (intro less.hyps) (auto simp: has_next_def)
    with ub show ?thesis
      by (simp add: collect_loop_over_undefined at_index_def has_next_def)
  next
    case both
    from less.prems(3) both da db have eq: "?ra = ?rb"
      and rest: "filter (\<lambda>v. v \<noteq> JUndefined) (drop (idx ?a1) (val ?a1)) =
                 filter (\<lambda>v. v \<noteq> JUndefined) (drop (idx ?b1) (val ?b1))"
      by simp_all
    have IH: "observed (collect_loop ?a1 acc' w') = observed (collect_loop ?b1 acc' w')" for acc' w'
      using less.prems(1,2) rest both by (intro less.hyps) (auto simp: has_next_def)
    have sa: "collect_loop a acc w =
        (case stages (higher_order b) (callback b) 0 ?rb w of
           Inl e \<Rightarrow> Inl e
         | Inr (v, w1) \<Rightarrow> collect_loop ?a1 (if v \<noteq> JUndefined then acc @ [v] else acc) w1)"
      using both(1) eq less.prems(1,2)
      by (simp add: collect_loop_step at_index_def has_next_def)
    have sb: "collect_loop b acc w =
        (case stages (higher_order b) (callback b) 0 ?rb w of
           Inl e \<Rightarrow> Inl e
         | Inr (v, w1) \<Rightarrow> collect_loop ?b1 (if v \<noteq> JUndefined then acc @ [v] else acc) w1)"
      using both(3) by (simp add: collect_loop_step at_index_def has_next_def)
    show ?thesis
    proof (cases "stages (higher_order b) (callback b) 0 ?rb w")
      case (Inl e)
      then show ?thesis unfolding sa sb by simp
    next
      case (Inr p)
      obtain v w1 where "p = (v, w1)" by (cases p)
      with Inr show ?thesis unfolding sa sb by (simp add: IH)
    qed
  next
    case na
    from na(1) have "drop (idx a) (val a) = []" by (simp add: has_next_def)
    with less.prems(3) na(2) db have "\<not> has_next b" by (cases "has_next b") auto
    with na(1) show ?thesis by (simp add: collect_loop_stop observed_def)
  next
    case nb
    from nb(1) have "drop (idx b) (val b) = []" by (simp add: has_next_def)
    with less.prems(3) nb da show ?thesis by simp
  qed
qed

text \<open>
  An iterator over the array \<open>[1, undefined, undefined, 2]\<close> with the stage
  \<open>map(value => value * 2)\<close>, at position \<open>k\<close>.
\<close>

definition holes_iter :: "nat \<Rightarrow> unit iter" where
  "holes_iter k =
     \<lparr>idx = k, val = [JNum 1, JUndefined, JUndefined, JNum 2],
      higher_order = [priv_map], callback = [num_fn (\<lambda>n. n * 2)]\<rparr>"

text \<open>
  Claim C9. An \<open>undefined\<close> element of the backing array is never handed out as an
  element, whatever the pipeline holds, the empty pipeline included. No stage is called
  on it. A call of \<open>next()\<close>, \<open>prev()\<close> or \<open>collect()\<close> that reads it goes on as the
  same call made one position further, exactly as it does after an element that the
  stages filtered out. \<open>next()\<close> and \<open>prev()\<close> return \<open>undefined\<close> only at the end
  of the array in their direction, \<open>collect()\<close> never returns a list with \<open>undefined\<close>
  in it, and what \<open>collect()\<close> returns and does is what it returns and does on the array
  with the \<open>undefined\<close> elements taken out. With the empty pipeline, \<open>next()\<close> and
  \<open>prev()\<close> return the first element other than \<open>undefined\<close> in their direction, and
  \<open>collect()\<close> the remaining elements other than \<open>undefined\<close>.
\<close>

theorem undefined_elements_never_surface:
  "stages hs cs i JUndefined w = Inr (JUndefined, w) \<and>
   (has_next it \<and> at_index (val it) (idx it) = JUndefined \<longrightarrow>
      next_iter it w = next_iter (it\<lparr>idx := Suc (idx it)\<rparr>) w \<and>
      collect it w = collect (it\<lparr>idx := Suc (idx it)\<rparr>) w) \<and>
   (has_prev it \<and> at_index (val it) (idx it - 1) = JUndefined \<longrightarrow>
      prev it w = prev (it\<lparr>idx := idx it - 1\<rparr>) w) \<and>
   (\<forall>w1. has_next it \<and>
      stages (higher_order it) (callback it) 0 (at_index (val it) (idx it)) w =
        Inr (JUndefined, w1) \<longrightarrow>
      next_iter it w = next_iter (it\<lparr>idx := Suc (idx it)\<rparr>) w1) \<and>
   (\<forall>it' w'. next_iter it w = Inr (JUndefined, it', w') \<longrightarrow> \<not> has_next it') \<and>
   (\<forall>it' w'. prev it w = Inr (JUndefined, it', w') \<longrightarrow> \<not> has_prev it') \<and>
   (\<forall>vs it' w'. collect it w = Inr (vs, it', w') \<longrightarrow> JUndefined \<notin> set vs) \<and>
   observed (collect it w) =
     observed (collect (it\<lparr>idx := 0,
        val := filter (\<lambda>v. v \<noteq> JUndefined) (drop (idx it) (val it))\<rparr>) w) \<and>
   (higher_order it = [] \<longrightarrow>
      next_iter it w =
        Inr (case dropWhile (\<lambda>v. v = JUndefined) (drop (idx it) (val it)) of
               [] \<Rightarrow> JUndefined | x # rest \<Rightarrow> x,
             it\<lparr>idx := idx it
                 + length (takeWhile (\<lambda>v. v = JUndefined) (drop (idx it) (val it)))
                 + (if dropWhile (\<lambda>v. v = JUndefined) (drop (idx it) (val it)) = [] then 0 else 1)\<rparr>,
             w) \<and>
      prev it w =
        Inr (case dropWhile (\<lambda>v. v = JUndefined) (rev (take (idx it) (val it))) of
               [] \<Rightarrow> JUndefined | x # rest \<Rightarrow> x,
             it\<lparr>idx := length (take (idx it) (val it))
                 - length (takeWhile (\<lambda>v. v = JUndefined) (rev (take (idx it) (val it))))
                 - (if dropWhile (\<lambda>v. v = JUndefined) (rev (take (idx it) (val it))) = [] then 0 else 1)\<rparr>,
             w) \<and>
      (\<exists>it'. collect it w =
          Inr (filter (\<lambda>v. v \<noteq> JUndefined) (drop (idx it) (val it)), it', w) \<and>
          \<not> has_next it'))"
proof -
  have a: "has_next it \<and> at_index (val it) (idx it) = JUndefined \<longrightarrow>
      next_iter it w = next_iter (it\<lparr>idx := Suc (idx it)\<rparr>) w \<and>
      collect it w = collect (it\<lparr>idx := Suc (idx it)\<rparr>) w"
    by (simp add: next_iter_over_undefined collect_def collect_loop_over_undefined)
  have b: "has_prev it \<and> at_index (val it) (idx it - 1) = JUndefined \<longrightarrow>
      prev it w = prev (it\<lparr>idx := idx it - 1\<rparr>) w"
    using prev_over_undefined [of it w] by blast
  have c: "\<forall>w1. has_next it \<and>
      stages (higher_order it) (callback it) 0 (at_index (val it) (idx it)) w =
        Inr (JUndefined, w1) \<longrightarrow>
      next_iter it w = next_iter (it\<lparr>idx := Suc (idx it)\<rparr>) w1"
    by (simp add: next_iter_def next_loop_step)
  have d: "\<forall>it' w'. next_iter it w = Inr (JUndefined, it', w') \<longrightarrow> \<not> has_next it'"
    using next_loop_frame [of it JUndefined w JUndefined] by (auto simp: next_iter_def)
  have e: "\<forall>it' w'. prev it w = Inr (JUndefined, it', w') \<longrightarrow> \<not> has_prev it'"
    using prev_loop_frame [of it JUndefined w JUndefined] by (auto simp: prev_def)
  have f: "\<forall>vs it' w'. collect it w = Inr (vs, it', w') \<longrightarrow> JUndefined \<notin> set vs"
    using collect_loop_no_undefined [of it "[]" w] by (auto simp: collect_def)
  have g: "observed (collect it w) =
     observed (collect (it\<lparr>idx := 0,
        val := filter (\<lambda>v. v \<noteq> JUndefined) (drop (idx it) (val it))\<rparr>) w)"
    unfolding collect_def by (rule collect_loop_same_elements) simp_all
  have h: "higher_order it = [] \<longrightarrow>
      next_iter it w =
        Inr (case dropWhile (\<lambda>v. v = JUndefined) (drop (idx it) (val it)) of
               [] \<Rightarrow> JUndefined | x # rest \<Rightarrow> x,
             it\<lparr>idx := idx it
                 + length (takeWhile (\<lambda>v. v = JUndefined) (drop (idx it) (val it)))
                 + (if dropWhile (\<lambda>v. v = JUndefined) (drop (idx it) (val it)) = [] then 0 else 1)\<rparr>,
             w) \<and>
      prev it w =
        Inr (case dropWhile (\<lambda>v. v = JUndefined) (rev (take (idx it) (val it))) of
               [] \<Rightarrow> JUndefined | x # rest \<Rightarrow> x,
             it\<lparr>idx := length (take (idx it) (val it))
                 - length (takeWhile (\<lambda>v. v = JUndefined) (rev (take (idx it) (val it))))
                 - (if dropWhile (\<lambda>v. v = JUndefined) (rev (take (idx it) (val it))) = [] then 0 else 1)\<rparr>,
             w) \<and>
      (\<exists>it'. collect it w =
          Inr (filter (\<lambda>v. v \<noteq> JUndefined) (drop (idx it) (val it)), it', w) \<and>
          \<not> has_next it')"
    using next_loop_skips_undefined [of it w] prev_loop_skips_undefined [of it w]
      collect_loop_skips_undefined [of it "[]" w]
    by (simp add: next_iter_def prev_def collect_def)
  from stages_undefined [of hs cs i w] a b c d e f g h show ?thesis by blast
qed

theorem undefined_elements_never_surface_witness:
  "reachable (holes_iter 1) \<and> has_next (holes_iter 1) \<and>
   at_index (val (holes_iter 1)) (idx (holes_iter 1)) = JUndefined \<and>
   next_iter (holes_iter 1) () = next_iter (holes_iter 2) () \<and>
   next_iter (holes_iter 1) () = Inr (JNum 4, holes_iter 4, ()) \<and>
   collect (holes_iter 1) () = collect (holes_iter 2) () \<and>
   collect (holes_iter 1) () = Inr ([JNum 4], holes_iter 4, ()) \<and>
   reachable (holes_iter 3) \<and> has_prev (holes_iter 3) \<and>
   at_index (val (holes_iter 3)) (idx (holes_iter 3) - 1) = JUndefined \<and>
   prev (holes_iter 3) () = prev (holes_iter 2) () \<and>
   prev (holes_iter 3) () = Inr (JNum 2, holes_iter 0, ()) \<and>
   higher_order (constructor_iter (Some [JUndefined, JNum 1]) :: unit iter) = [] \<and>
   next_iter (constructor_iter (Some [JUndefined, JNum 1])) () =
     Inr (JNum 1, \<lparr>idx = 2, val = [JUndefined, JNum 1], higher_order = [], callback = []\<rparr>, ())"
proof -
  have e0: "holes_iter 0 =
      map_iter (num_fn (\<lambda>n. n * 2))
        (constructor_iter (Some [JNum 1, JUndefined, JUndefined, JNum 2]))"
    by (simp add: holes_iter_def map_iter_def constructor_iter_def)
  have n0: "next_iter (holes_iter 0) () = Inr (JNum 2, holes_iter 1, ())"
    by (simp add: holes_iter_def iter_eval num_fn_def)
  have n1: "next_iter (holes_iter 1) () = Inr (JNum 4, holes_iter 4, ())"
    by (simp add: holes_iter_def iter_eval num_fn_def)
  have p4: "prev (holes_iter 4) () = Inr (JNum 4, holes_iter 3, ())"
    by (simp add: holes_iter_def iter_eval num_fn_def)
  have p3: "prev (holes_iter 3) () = Inr (JNum 2, holes_iter 0, ())"
    by (simp add: holes_iter_def iter_eval num_fn_def)
  have c1: "collect (holes_iter 1) () = Inr ([JNum 4], holes_iter 4, ())"
    by (simp add: holes_iter_def iter_eval num_fn_def)
  have r0: "reachable (holes_iter 0)"
    unfolding e0 by (intro r_map r_constructor)
  have r1: "reachable (holes_iter 1)" by (rule r_next [OF r0 n0])
  have r4: "reachable (holes_iter 4)" by (rule r_next [OF r1 n1])
  have r3: "reachable (holes_iter 3)" by (rule r_prev [OF r4 p4])
  have h1: "has_next (holes_iter 1) \<and> at_index (val (holes_iter 1)) (idx (holes_iter 1)) = JUndefined"
    by (simp add: holes_iter_def has_next_def at_index_def)
  have h3: "has_prev (holes_iter 3) \<and>
      at_index (val (holes_iter 3)) (idx (holes_iter 3) - 1) = JUndefined"
    by (simp add: holes_iter_def has_prev_def at_index_def numeral_3_eq_3)
  have s1: "holes_iter 1\<lparr>idx := Suc (idx (holes_iter 1))\<rparr> = holes_iter 2"
    by (simp add: holes_iter_def)
  have s3: "holes_iter 3\<lparr>idx := idx (holes_iter 3) - 1\<rparr> = holes_iter 2"
    by (simp add: holes_iter_def)
  let ?c = "constructor_iter (Some [JUndefined, JNum 1]) :: unit iter"
  have hc: "higher_order ?c = []" by (simp add: constructor_iter_def)
  from undefined_elements_never_surface [of _ _ _ "()" "holes_iter 1"] h1
  have A: "next_iter (holes_iter 1) () = next_iter (holes_iter 2) () \<and>
           collect (holes_iter 1) () = collect (holes_iter 2) ()"
    unfolding s1 by blast
  from undefined_elements_never_surface [of _ _ _ "()" "holes_iter 3"] h3
  have B: "prev (holes_iter 3) () = prev (holes_iter 2) ()"
    unfolding s3 by blast
  from undefined_elements_never_surface [of _ _ _ "()" ?c] hc
  have "next_iter ?c () =
        Inr (case dropWhile (\<lambda>v. v = JUndefined) (drop (idx ?c) (val ?c)) of
               [] \<Rightarrow> JUndefined | x # rest \<Rightarrow> x,
             ?c\<lparr>idx := idx ?c
                 + length (takeWhile (\<lambda>v. v = JUndefined) (drop (idx ?c) (val ?c)))
                 + (if dropWhile (\<lambda>v. v = JUndefined) (drop (idx ?c) (val ?c)) = [] then 0 else 1)\<rparr>,
             ())"
    by blast
  then have C: "next_iter ?c () =
     Inr (JNum 1, \<lparr>idx = 2, val = [JUndefined, JNum 1], higher_order = [], callback = []\<rparr>, ())"
    by (simp add: constructor_iter_def)
  from r1 h1 A n1 c1 r3 h3 B p3 hc C show ?thesis by blast
qed

section \<open>\<open>map\<close> followed by \<open>collect\<close>\<close>

text \<open>
  Element-wise application of a callback to a list, from left to right, each call
  starting in the world the call before it left.
\<close>

fun map_world :: "'w fn \<Rightarrow> jsval list \<Rightarrow> 'w \<Rightarrow> jsval list \<times> 'w" where
  "map_world f [] w = ([], w)"
| "map_world f (x # xs) w =
     (case f x w of (y, w1) \<Rightarrow> (case map_world f xs w1 of (ys, w2) \<Rightarrow> (y # ys, w2)))"

text \<open>A callback that ignores its argument and returns a constant.\<close>

definition const_fn :: "jsval \<Rightarrow> 'w fn" where
  "const_fn c v w = (c, w)"

lemma map_world_pure: "map_world (\<lambda>v w. (g v, w)) xs w = (map g xs, w)"
  by (induction xs) auto

lemma stages_single:
  "v \<noteq> JUndefined \<Longrightarrow> stages [h] [f] 0 v w = Inr (h f v w)"
  by (simp add: stages_step stages_end split: prod.splits)

lemma collect_loop_map:
  "higher_order it = [priv_map] \<Longrightarrow> callback it = [f] \<Longrightarrow> idx it \<le> length (val it) \<Longrightarrow>
   JUndefined \<notin> set (drop (idx it) (val it)) \<Longrightarrow>
   \<forall>x\<in>set (val it). \<forall>w. fst (f x w) \<noteq> JUndefined \<Longrightarrow>
   collect_loop it acc w =
     Inr (acc @ fst (map_world f (drop (idx it) (val it)) w),
          it\<lparr>idx := length (val it)\<rparr>,
          snd (map_world f (drop (idx it) (val it)) w))"
proof (induction "length (val it) - idx it" arbitrary: it acc w)
  case 0
  then have "\<not> has_next it" "idx it = length (val it)" by (simp_all add: has_next_def)
  then show ?case by (simp add: collect_loop_stop)
next
  case (Suc n)
  then have hn: "has_next it" by (simp add: has_next_def)
  let ?it1 = "it\<lparr>idx := Suc (idx it)\<rparr>"
  let ?raw = "val it ! idx it"
  from hn have d: "drop (idx it) (val it) = ?raw # drop (Suc (idx it)) (val it)"
    by (simp add: has_next_def Cons_nth_drop_Suc)
  with Suc.prems(4) have raw: "?raw \<noteq> JUndefined"
    and rest: "JUndefined \<notin> set (drop (idx ?it1) (val ?it1))" by auto
  obtain y w1 where fy: "f ?raw w = (y, w1)" by (cases "f ?raw w")
  from hn have "?raw \<in> set (val it)" by (simp add: has_next_def)
  with Suc.prems(5) fy have y: "y \<noteq> JUndefined" by (metis fst_conv)
  from hn Suc.prems(1,2) raw fy y have step:
    "collect_loop it acc w = collect_loop ?it1 (acc @ [y]) w1"
    by (simp add: collect_loop_step stages_single at_index_def has_next_def priv_map_def)
  have n: "n = length (val ?it1) - idx ?it1" using Suc.hyps(2) by simp
  have "collect_loop ?it1 (acc @ [y]) w1 =
     Inr ((acc @ [y]) @ fst (map_world f (drop (idx ?it1) (val ?it1)) w1),
          ?it1\<lparr>idx := length (val ?it1)\<rparr>,
          snd (map_world f (drop (idx ?it1) (val ?it1)) w1))"
    using Suc.prems hn rest by (intro Suc.hyps(1) [OF n]) (simp_all add: has_next_def)
  with step d fy show ?case
    by (simp split: prod.splits)
qed

text \<open>
  Claim C1, as it holds. For a backing array with no \<open>undefined\<close> element and a function
  \<open>f\<close> that does not return \<open>undefined\<close> on its elements, \<open>map(f)\<close> followed by
  \<open>collect()\<close> on a fresh iterator returns the results of \<open>f\<close> on the elements, in the
  order of the array (for an \<open>f\<close> without side effects: the list \<open>map f\<close> of the array),
  and leaves the index at the end of the array. The stage function \<open>_map\<close> returns the
  result of \<open>f\<close> as it is.
\<close>

theorem map_then_collect:
  assumes "JUndefined \<notin> set xs"
    and "\<forall>x\<in>set xs. \<forall>w. fst (f x w) \<noteq> JUndefined"
  shows "collect (map_iter f (constructor_iter (Some xs))) w =
           Inr (fst (map_world f xs w),
                (map_iter f (constructor_iter (Some xs)))\<lparr>idx := length xs\<rparr>,
                snd (map_world f xs w))
         \<and> map_world (\<lambda>v w. (g v, w)) xs w = (map g xs, w)
         \<and> priv_map f v w = f v w"
  using collect_loop_map [of "map_iter f (constructor_iter (Some xs))" f "[]" w] assms
  by (simp add: collect_def map_iter_def constructor_iter_def map_world_pure priv_map_def)

theorem map_then_collect_witness:
  "JUndefined \<notin> set [JNum 1, JNum 5, JNum 3] \<and>
   collect (map_iter (num_fn (\<lambda>n. n * 2)) (constructor_iter (Some [JNum 1, JNum 5, JNum 3]))) () =
     Inr ([JNum 2, JNum 10, JNum 6],
          \<lparr>idx = 3, val = [JNum 1, JNum 5, JNum 3], higher_order = [priv_map],
            callback = [num_fn (\<lambda>n. n * 2)]\<rparr>, ())"
proof -
  have a: "JUndefined \<notin> set [JNum 1, JNum 5, JNum 3]" by simp
  have b: "\<forall>x\<in>set [JNum 1, JNum 5, JNum 3]. \<forall>w::unit. fst (num_fn (\<lambda>n. n * 2) x w) \<noteq> JUndefined"
    by (simp add: num_fn_def)
  have e: "map_world (num_fn (\<lambda>n. n * 2)) [JNum 1, JNum 5, JNum 3] () =
      ([JNum 2, JNum 10, JNum 6], ())"
    by (simp add: num_fn_def)
  from map_then_collect [OF a b, of "()"] show ?thesis
    unfolding e by (simp add: map_iter_def constructor_iter_def numeral_3_eq_3)
qed

text \<open>
  The claim as written, for every backing array and every \<open>f\<close>, fails on an array with
  an \<open>undefined\<close> element: \<open>f\<close> is never called on it, and the result is shorter than the
  array. It also fails for an \<open>f\<close> that returns \<open>undefined\<close>: that result is dropped.
\<close>

theorem map_then_collect_counterexample:
  "collect (map_iter (const_fn (JNum 0)) (constructor_iter (Some [JNum 1, JUndefined, JNum 2]))) () =
     Inr ([JNum 0, JNum 0],
          \<lparr>idx = 3, val = [JNum 1, JUndefined, JNum 2], higher_order = [priv_map],
            callback = [const_fn (JNum 0)]\<rparr>, ())
   \<and> fst (map_world (const_fn (JNum 0)) [JNum 1, JUndefined, JNum 2] ()) =
       [JNum 0, JNum 0, JNum 0]
   \<and> collect (map_iter (const_fn JUndefined) (constructor_iter (Some [JNum 1]))) () =
     Inr ([],
          \<lparr>idx = 1, val = [JNum 1], higher_order = [priv_map],
            callback = [const_fn JUndefined]\<rparr>, ())
   \<and> fst (map_world (const_fn JUndefined) [JNum 1] ()) = [JUndefined]"
  by (simp add: iter_eval const_fn_def)

section \<open>The stage left behind by \<open>some\<close> and \<open>find\<close>\<close>










section \<open>Methods the class does not have\<close>

text \<open>
  The methods that the body of the class \<open>Iter\<close> declares, in the order of the source,
  and those every object inherits from \<open>Object.prototype\<close>. A call \<open>it.m(...)\<close> looks
  the name \<open>m\<close> up on the object and its prototypes; when no method of that name is
  found, the callee is not a function (\<open>undefined\<close>, or one of the data fields
  \<open>idx\<close>, \<open>val\<close>, \<open>higher_order\<close>, \<open>callback\<close>) and the call raises a
  \<open>TypeError\<close>.
\<close>

definition iter_methods :: "string list" where
  "iter_methods =
     [''constructor'', ''reset'', ''has_next'', ''next'', ''has_prev'', ''prev'', ''peek'',
      ''map'', ''_map'', ''filter'', ''_filter'', ''some'', ''find'', ''tap'', ''_tap'',
      ''collect'']"

definition object_prototype_methods :: "string list" where
  "object_prototype_methods =
     [''hasOwnProperty'', ''isPrototypeOf'', ''propertyIsEnumerable'', ''toLocaleString'',
      ''toString'', ''valueOf'', ''__defineGetter__'', ''__defineSetter__'',
      ''__lookupGetter__'', ''__lookupSetter__'']"

definition method_lookup :: "string \<Rightarrow> error + string" where
  "method_lookup m =
     (if m \<in> set iter_methods \<or> m \<in> set object_prototype_methods then Inr m
      else Inl TypeError)"

text \<open>
  Claim C3. \<open>skip(n)\<close> followed by \<open>collect()\<close> should return the backing array
  without its first \<open>n\<close> elements, and the test suite of the repository expects so
  (\<open>iterator.skip(3)\<close>, then \<open>collect()\<close> giving \<open>[9, 7]\<close>). The class has no method
  \<open>skip\<close>: the call \<open>iterator.skip(3)\<close> raises a \<open>TypeError\<close> before anything is
  collected.
\<close>

theorem skip_is_not_a_method:
  "method_lookup ''skip'' = Inl TypeError"
  by (simp add: method_lookup_def iter_methods_def object_prototype_methods_def)

text \<open>
  Claim C4. \<open>every(fn)\<close> should return whether \<open>fn\<close> holds for every remaining
  element, and the test suite of the repository expects so
  (\<open>iterator.every((value) => value > 5)\<close> giving \<open>false\<close>). The class has no method
  \<open>every\<close>: the call raises a \<open>TypeError\<close> and returns no boolean.
\<close>

theorem every_is_not_a_method:
  "method_lookup ''every'' = Inl TypeError"
  by (simp add: method_lookup_def iter_methods_def object_prototype_methods_def)

end
